theory Spec2Isabelle
  imports Complex_Main
begin

section \<open>The track generator of \<open>src/index.py\<close>\<close>

text \<open>
  The class \<open>TrackGenerator\<close> is embedded as a record of its fields and one function per
  method, each taking the object and returning the updated one. Angles, coordinates and
  the step length are Python floats; they are modelled as exact reals, so the theorems
  are about the control logic and not about rounding. Counters are Python integers
  (\<open>int\<close>), list indices are \<open>nat\<close>.
\<close>

subsection \<open>The random source\<close>

text \<open>
  \<open>random.Random\<close> is the Python standard library, not repository code. It is a
  parameter of the model: a record with the constructor \<open>Random(seed)\<close> and the three
  methods the generator calls. Each method takes the generator's internal state and
  returns the drawn value with the next state.
\<close>

record ('s, 'r) rng_ops =
  Random :: "'s \<Rightarrow> 'r"
  randint :: "int \<Rightarrow> int \<Rightarrow> 'r \<Rightarrow> int \<times> 'r"
  uniform :: "real \<Rightarrow> real \<Rightarrow> 'r \<Rightarrow> real \<times> 'r"
  random :: "'r \<Rightarrow> real \<times> 'r"

text \<open>
  What the library documents: \<open>randint(a, b)\<close> returns an integer \<open>N\<close> with
  \<open>a \<le> N \<le> b\<close> (both ends included), \<open>uniform(a, b)\<close> a float between \<open>a\<close> and \<open>b\<close>,
  \<open>random()\<close> a float in \<open>[0, 1)\<close>.
\<close>

definition rng_contract :: "('s, 'r) rng_ops \<Rightarrow> bool" where
  "rng_contract R \<longleftrightarrow>
     (\<forall>a b r. a \<le> b \<longrightarrow> a \<le> fst (randint R a b r) \<and> fst (randint R a b r) \<le> b) \<and>
     (\<forall>a b r. a \<le> b \<longrightarrow> a \<le> fst (uniform R a b r) \<and> fst (uniform R a b r) \<le> b) \<and>
     (\<forall>r. 0 \<le> fst (random R r) \<and> fst (random R r) < 1)"

text \<open>
  A concrete random source for running the model: the state is a tape of raw draws
  (natural numbers), read front to back, and an exhausted tape keeps giving 0. The
  derived methods follow the library: \<open>randint(a, b)\<close> is \<open>a + randbelow(b - a + 1)\<close> and
  \<open>uniform(a, b)\<close> is \<open>a + (b - a) * random()\<close>. The seed is the tape itself.
\<close>

fun tape_next :: "nat list \<Rightarrow> nat \<times> nat list" where
  "tape_next [] = (0, [])"
| "tape_next (x # xs) = (x, xs)"

definition tape_randint :: "int \<Rightarrow> int \<Rightarrow> nat list \<Rightarrow> int \<times> nat list" where
  "tape_randint a b t = (case tape_next t of (x, t') \<Rightarrow> (a + int x mod (b - a + 1), t'))"

definition tape_random :: "nat list \<Rightarrow> real \<times> nat list" where
  "tape_random t = (case tape_next t of (x, t') \<Rightarrow> (real (x mod 1000) / 1000, t'))"

definition tape_uniform :: "real \<Rightarrow> real \<Rightarrow> nat list \<Rightarrow> real \<times> nat list" where
  "tape_uniform a b t = (case tape_random t of (u, t') \<Rightarrow> (a + (b - a) * u, t'))"

definition tape_rng :: "(nat list, nat list) rng_ops" where
  "tape_rng = \<lparr>Random = (\<lambda>s. s), randint = tape_randint, uniform = tape_uniform,
               random = tape_random\<rparr>"

text \<open>
  The same tape source inside a process whose system entropy is the tape \<open>e\<close>. As the
  library documents, \<open>Random(None)\<close> seeds the generator from the system (the time or the
  operating system's randomness, here \<open>e\<close>) and \<open>Random(seed)\<close> from the seed alone. The
  seed argument is \<open>None\<close> or a tape.
\<close>

definition entropy_rng :: "nat list \<Rightarrow> (nat list option, nat list) rng_ops" where
  "entropy_rng e =
     \<lparr>Random = (\<lambda>s. case s of None \<Rightarrow> e | Some t \<Rightarrow> t),
      randint = tape_randint, uniform = tape_uniform, random = tape_random\<rparr>"

subsection \<open>The generator state\<close>

datatype error = ZeroDivisionError

record ('s, 'r) TrackGenerator =
  seed :: 's
  rng :: 'r
  step_length :: real
  num_points :: int
  current_position :: "real \<times> real"
  track_points :: "(real \<times> real) list"
  current_direction_angle :: real
  target_direction_angle :: real
  previous_angles :: "real list"
  initial_direction :: real
  cumulative_turn :: real
  steps_until_next_turn :: int
  turn_indices :: "nat list"
  turning :: bool
  turn_steps_remaining :: int
  turn_total_steps :: int
  turn_angle_increment :: real
  max_turn_angle :: real
  max_cumulative_turn :: real
  backtrack_threshold :: real

text \<open>\<open>__init__\<close> (lines 10-40). It has no check and no \<open>raise\<close>; its one draw is the
  initial countdown.\<close>

definition TrackGenerator_init ::
  "('s, 'r) rng_ops \<Rightarrow> 's \<Rightarrow> real \<Rightarrow> int \<Rightarrow> ('s, 'r) TrackGenerator" where
  "TrackGenerator_init R sd sl np =
     (case randint R 20 50 (Random R sd) of (n, r) \<Rightarrow>
        \<lparr>seed = sd, rng = r, step_length = sl, num_points = np,
         current_position = (0, 0), track_points = [(0, 0)],
         current_direction_angle = 0, target_direction_angle = 0,
         previous_angles = replicate 5 0,
         initial_direction = 0, cumulative_turn = 0,
         steps_until_next_turn = n, turn_indices = [],
         turning = False, turn_steps_remaining = 0, turn_total_steps = 0,
         turn_angle_increment = 0,
         max_turn_angle = 60, max_cumulative_turn = 120, backtrack_threshold = 120\<rparr>)"

subsection \<open>Angles\<close>

text \<open>\<open>normalize_angle\<close> (lines 42-48): two loops, one after the other.\<close>

function norm_down :: "real \<Rightarrow> real" where
  "norm_down angle = (if angle > 180 then norm_down (angle - 360) else angle)"
  by pat_completeness auto
termination
proof (relation "measure (\<lambda>a. nat \<lceil>a\<rceil>)")
  show "wf (measure (\<lambda>a::real. nat \<lceil>a\<rceil>))" by simp
next
  fix angle :: real
  assume "180 < angle"
  then have "\<lceil>angle - 360\<rceil> < \<lceil>angle\<rceil>" and "0 < \<lceil>angle\<rceil>" by linarith+
  then show "(angle - 360, angle) \<in> measure (\<lambda>a. nat \<lceil>a\<rceil>)" by simp
qed

function norm_up :: "real \<Rightarrow> real" where
  "norm_up angle = (if angle < -180 then norm_up (angle + 360) else angle)"
  by pat_completeness auto
termination
proof (relation "measure (\<lambda>a. nat \<lceil>- a\<rceil>)")
  show "wf (measure (\<lambda>a::real. nat \<lceil>- a\<rceil>))" by simp
next
  fix angle :: real
  assume "angle < -180"
  then have "\<lceil>- (angle + 360)\<rceil> < \<lceil>- angle\<rceil>" and "0 < \<lceil>- angle\<rceil>" by linarith+
  then show "(angle + 360, angle) \<in> measure (\<lambda>a. nat \<lceil>- a\<rceil>)" by simp
qed

declare norm_down.simps [simp del] norm_up.simps [simp del]

definition normalize_angle :: "real \<Rightarrow> real" where
  "normalize_angle angle = norm_up (norm_down angle)"

text \<open>
  Python's angles are binary64 floats. The angles the generator itself normalises stay
  within a few hundred degrees, and there \<open>normalize_angle\<close> above is used. For the claim
  about \<open>normalize_angle\<close> on every finite input the same two loops are embedded a second
  time over a rounding function \<open>rnd\<close>: the float result of \<open>angle - 360\<close> is \<open>rnd\<close> of the
  exact difference. With rounding a loop may never end, so these functions return an
  option, \<open>None\<close> standing for a loop that runs forever.
\<close>

partial_function (option) norm_down_fl :: "(real \<Rightarrow> real) \<Rightarrow> real \<Rightarrow> real option" where
  "norm_down_fl rnd angle =
     (if angle > 180 then norm_down_fl rnd (rnd (angle - 360)) else Some angle)"

partial_function (option) norm_up_fl :: "(real \<Rightarrow> real) \<Rightarrow> real \<Rightarrow> real option" where
  "norm_up_fl rnd angle =
     (if angle < - 180 then norm_up_fl rnd (rnd (angle + 360)) else Some angle)"

definition normalize_angle_fl :: "(real \<Rightarrow> real) \<Rightarrow> real \<Rightarrow> real option" where
  "normalize_angle_fl rnd angle =
     (case norm_down_fl rnd angle of None \<Rightarrow> None | Some a \<Rightarrow> norm_up_fl rnd a)"

text \<open>
  Rounding to binary64: to the nearest value with a 53-bit significand, ties to the even
  one. The exponent range is taken as unbounded: adding 360 to a finite angle below
  -180 or subtracting it from one above 180 neither overflows nor gives a subnormal
  result.
\<close>

definition round_half_even :: "real \<Rightarrow> int" where
  "round_half_even q =
     (let f = \<lfloor>q\<rfloor>; d = q - of_int f
      in if d < 1 / 2 then f else if 1 / 2 < d then f + 1 else if even f then f else f + 1)"

definition binary64_round :: "real \<Rightarrow> real" where
  "binary64_round x =
     (if x = 0 then 0
      else let u = 2 powr (of_int \<lfloor>log 2 \<bar>x\<bar>\<rfloor> - 52)
           in u * of_int (round_half_even (x / u)))"

text \<open>
  What the loops need of the rounding, as IEEE 754 gives it: it is monotone, its relative
  error is at most \<open>2^-53\<close>, and 180 and -180 are floats.
\<close>

definition binary64_contract :: "(real \<Rightarrow> real) \<Rightarrow> bool" where
  "binary64_contract rnd \<longleftrightarrow>
     (\<forall>x y. x \<le> y \<longrightarrow> rnd x \<le> rnd y) \<and>
     (\<forall>x. \<bar>rnd x - x\<bar> \<le> \<bar>x\<bar> / 2 ^ 53) \<and>
     rnd 180 = 180 \<and> rnd (- 180) = - 180"

text \<open>\<open>get_smoothed_angle\<close> (lines 50-52): \<open>np.mean\<close> of the slice \<open>[-3:]\<close>, which is the
  whole list when it has fewer than three entries. The list starts with five entries and
  never shrinks (\<open>run_steps_previous_angles\<close> below), so the slice is never empty.\<close>

definition get_smoothed_angle :: "('s, 'r) TrackGenerator \<Rightarrow> real" where
  "get_smoothed_angle g =
     (let last3 = drop (length (previous_angles g) - 3) (previous_angles g)
      in sum_list last3 / real (length last3))"

text \<open>\<open>would_cause_backtrack\<close> (lines 54-68): the same quantity is tested twice, against
  two fields.\<close>

definition would_cause_backtrack :: "('s, 'r) TrackGenerator \<Rightarrow> real \<Rightarrow> bool" where
  "would_cause_backtrack g proposed_angle =
     (let angle_from_initial = \<bar>normalize_angle (proposed_angle - initial_direction g)\<bar>
      in if angle_from_initial > backtrack_threshold g then True
         else let total_turn_from_initial =
                    \<bar>normalize_angle (proposed_angle - initial_direction g)\<bar>
              in if total_turn_from_initial > max_cumulative_turn g then True
                 else False)"

text \<open>\<open>get_safe_turn_angle\<close> (lines 70-91). It reads the object and assigns to no field,
  so it returns the angle alone.\<close>

definition get_safe_turn_angle :: "('s, 'r) TrackGenerator \<Rightarrow> real \<Rightarrow> real" where
  "get_safe_turn_angle g desired_angle =
     (let proposed_angle = normalize_angle (current_direction_angle g + desired_angle)
      in if would_cause_backtrack g proposed_angle then
           (let safe_angle = desired_angle * 0.3;
                proposed_angle = normalize_angle (current_direction_angle g + safe_angle)
            in if would_cause_backtrack g proposed_angle then
                 (let safe_angle = - desired_angle * 0.2;
                      proposed_angle = normalize_angle (current_direction_angle g + safe_angle)
                  in if would_cause_backtrack g proposed_angle then 0 else safe_angle)
               else safe_angle)
         else desired_angle)"

text \<open>The decision tree as the specification words it (\<open>safeTurnAngle\<close>), kept apart from
  the definition above for comparison.\<close>

definition safeTurnAngle_spec :: "('s, 'r) TrackGenerator \<Rightarrow> real \<Rightarrow> real" where
  "safeTurnAngle_spec g d =
     (if \<not> would_cause_backtrack g (normalize_angle (current_direction_angle g + d)) then d
      else if \<not> would_cause_backtrack g (normalize_angle (current_direction_angle g + 0.3 * d))
        then 0.3 * d
      else if \<not> would_cause_backtrack g (normalize_angle (current_direction_angle g + (- 0.2) * d))
        then (- 0.2) * d
      else 0)"

subsection \<open>Turns\<close>

text \<open>\<open>start_big_turn\<close> (lines 93-114). The operands of the product are drawn left to
  right. The division by the drawn duration raises \<open>ZeroDivisionError\<close> when the
  duration is 0, which a random source keeping its contract never draws.\<close>

definition start_big_turn ::
  "('s, 'r) rng_ops \<Rightarrow> ('s, 'r) TrackGenerator \<Rightarrow> error + ('s, 'r) TrackGenerator" where
  "start_big_turn R g =
     (case uniform R 20 50 (rng g) of (u, r1) \<Rightarrow>
      case random R r1 of (c, r2) \<Rightarrow>
      let big_turn_angle = u * (if c < 0.5 then 1 else - 1);
          big_turn_angle = get_safe_turn_angle g big_turn_angle;
          target = normalize_angle (current_direction_angle g + big_turn_angle)
      in case randint R 15 30 r2 of (n, r3) \<Rightarrow>
         let angle_diff = normalize_angle (target - current_direction_angle g)
         in if n = 0 then Inl ZeroDivisionError
            else Inr (g\<lparr>rng := r3,
                       target_direction_angle := target,
                       turn_total_steps := n,
                       turn_steps_remaining := n,
                       turn_angle_increment := angle_diff / real_of_int n,
                       turning := True,
                       turn_indices := turn_indices g @ [length (track_points g)]\<rparr>))"

text \<open>\<open>step_turn\<close> (lines 116-133).\<close>

definition step_turn :: "('s, 'r) TrackGenerator \<Rightarrow> ('s, 'r) TrackGenerator" where
  "step_turn g =
     (if turn_steps_remaining g > 0 then
        (let new_angle = current_direction_angle g + turn_angle_increment g
         in if \<not> would_cause_backtrack g new_angle then
              g\<lparr>current_direction_angle := normalize_angle new_angle,
                previous_angles := previous_angles g @ [normalize_angle new_angle],
                turn_steps_remaining := turn_steps_remaining g - 1\<rparr>
            else g\<lparr>turning := False, turn_steps_remaining := 0\<rparr>)
      else g\<lparr>turning := False, target_direction_angle := current_direction_angle g\<rparr>)"

subsection \<open>One step and the full track\<close>

text \<open>The first half of \<open>generate_next_point\<close> (lines 136-176): choosing the heading.\<close>

definition choose_heading ::
  "('s, 'r) rng_ops \<Rightarrow> ('s, 'r) TrackGenerator \<Rightarrow> error + ('s, 'r) TrackGenerator" where
  "choose_heading R g =
     (if turning g then Inr (step_turn g)
      else if steps_until_next_turn g > 0 then
        (let g1 = g\<lparr>steps_until_next_turn := steps_until_next_turn g - 1\<rparr>
         in case uniform R (- 1) 1 (rng g1) of (noise, r1) \<Rightarrow>
            let g2 = g1\<lparr>rng := r1\<rparr>;
                smoothed_angle = get_smoothed_angle g2;
                proposed_angle = smoothed_angle + noise
            in if \<not> would_cause_backtrack g2 proposed_angle then
                 Inr (g2\<lparr>current_direction_angle := normalize_angle proposed_angle,
                         previous_angles :=
                           previous_angles g2 @ [normalize_angle proposed_angle]\<rparr>)
               else Inr g2)
      else
        (case randint R 30 70 (rng g) of (n, r1) \<Rightarrow>
         case random R r1 of (turn_type_roll, r2) \<Rightarrow>
         let g1 = g\<lparr>steps_until_next_turn := n, rng := r2\<rparr>
         in if turn_type_roll < 0.85 then
              (case uniform R 2 15 (rng g1) of (u, r3) \<Rightarrow>
               case random R r3 of (c, r4) \<Rightarrow>
               let small_turn_angle = u * (if c < 0.5 then 1 else - 1);
                   g2 = g1\<lparr>rng := r4\<rparr>;
                   safe_turn_angle = get_safe_turn_angle g2 small_turn_angle;
                   new_angle = normalize_angle (current_direction_angle g2 + safe_turn_angle);
                   g3 = g2\<lparr>current_direction_angle := new_angle,
                           previous_angles := previous_angles g2 @ [new_angle]\<rparr>
               in if \<bar>safe_turn_angle\<bar> > 0.5 then
                    Inr (g3\<lparr>turn_indices := turn_indices g3 @ [length (track_points g3)]\<rparr>)
                  else Inr g3)
            else start_big_turn R g1))"

text \<open>The second half (lines 178-185): one step forward along the heading.
  \<open>math.radians\<close> multiplies by \<open>pi / 180\<close>.\<close>

definition move_forward :: "('s, 'r) TrackGenerator \<Rightarrow> ('s, 'r) TrackGenerator" where
  "move_forward g =
     (let rad = current_direction_angle g * (pi / 180);
          (x, y) = current_position g;
          dx = cos rad * step_length g;
          dy = sin rad * step_length g;
          new_pos = (x + dx, y + dy)
      in g\<lparr>current_position := new_pos, track_points := track_points g @ [new_pos]\<rparr>)"

definition generate_next_point ::
  "('s, 'r) rng_ops \<Rightarrow> ('s, 'r) TrackGenerator \<Rightarrow> error + ('s, 'r) TrackGenerator" where
  "generate_next_point R g =
     (case choose_heading R g of Inl e \<Rightarrow> Inl e | Inr g' \<Rightarrow> Inr (move_forward g'))"

text \<open>\<open>n\<close> calls of \<open>generate_next_point\<close> in a row; an exception ends the run.\<close>

fun run_steps ::
  "('s, 'r) rng_ops \<Rightarrow> nat \<Rightarrow> ('s, 'r) TrackGenerator \<Rightarrow> error + ('s, 'r) TrackGenerator" where
  "run_steps R 0 g = Inr g"
| "run_steps R (Suc n) g =
     (case generate_next_point R g of Inl e \<Rightarrow> Inl e | Inr g' \<Rightarrow> run_steps R n g')"

text \<open>\<open>generate_full_track\<close> (lines 187-190). \<open>range(num_points)\<close> is read once and is
  empty for a count of zero or less, which is what \<open>nat\<close> gives.\<close>

definition generate_full_track ::
  "('s, 'r) rng_ops \<Rightarrow> ('s, 'r) TrackGenerator \<Rightarrow> error + ((real \<times> real) list \<times> nat list)" where
  "generate_full_track R g =
     (case run_steps R (nat (num_points g)) g of
        Inl e \<Rightarrow> Inl e
      | Inr g' \<Rightarrow> Inr (track_points g', turn_indices g'))"

subsection \<open>Invariants\<close>

text \<open>The three fields that \<open>would_cause_backtrack\<close> reads keep their initial values.\<close>

definition limits_ok :: "('s, 'r) TrackGenerator \<Rightarrow> bool" where
  "limits_ok g \<longleftrightarrow>
     initial_direction g = 0 \<and> backtrack_threshold g = 120 \<and> max_cumulative_turn g = 120"

definition heading_ok :: "('s, 'r) TrackGenerator \<Rightarrow> bool" where
  "heading_ok g \<longleftrightarrow>
     \<bar>normalize_angle (current_direction_angle g - initial_direction g)\<bar> \<le> 120"

text \<open>The points list starts at the origin and ends at the current position.\<close>

definition points_ok :: "('s, 'r) TrackGenerator \<Rightarrow> bool" where
  "points_ok g \<longleftrightarrow>
     track_points g \<noteq> [] \<and> hd (track_points g) = (0, 0) \<and>
     current_position g = last (track_points g)"

text \<open>The flagged indices increase strictly and point into the points list.\<close>

definition turn_indices_ok :: "('s, 'r) TrackGenerator \<Rightarrow> bool" where
  "turn_indices_ok g \<longleftrightarrow>
     sorted_wrt (<) (turn_indices g) \<and>
     list_all (\<lambda>i. i < length (track_points g)) (turn_indices g)"

text \<open>Two generator objects that agree on every field but \<open>previous_angles\<close>.\<close>

definition same_but_history ::
  "('s, 'r) TrackGenerator \<Rightarrow> ('s, 'r) TrackGenerator \<Rightarrow> bool" where
  "same_but_history g1 g2 \<longleftrightarrow>
     seed g1 = seed g2 \<and> rng g1 = rng g2 \<and> step_length g1 = step_length g2 \<and>
     num_points g1 = num_points g2 \<and>
     current_position g1 = current_position g2 \<and> track_points g1 = track_points g2 \<and>
     current_direction_angle g1 = current_direction_angle g2 \<and>
     target_direction_angle g1 = target_direction_angle g2 \<and>
     initial_direction g1 = initial_direction g2 \<and>
     cumulative_turn g1 = cumulative_turn g2 \<and>
     steps_until_next_turn g1 = steps_until_next_turn g2 \<and>
     turn_indices g1 = turn_indices g2 \<and> turning g1 = turning g2 \<and>
     turn_steps_remaining g1 = turn_steps_remaining g2 \<and>
     turn_total_steps g1 = turn_total_steps g2 \<and>
     turn_angle_increment g1 = turn_angle_increment g2 \<and>
     max_turn_angle g1 = max_turn_angle g2 \<and>
     max_cumulative_turn g1 = max_cumulative_turn g2 \<and>
     backtrack_threshold g1 = backtrack_threshold g2"

section \<open>Properties\<close>

subsection \<open>Normalisation of angles\<close>

lemma norm_down_id: "a \<le> 180 \<Longrightarrow> norm_down a = a"
  by (simp add: norm_down.simps)

lemma norm_up_id: "- 180 \<le> a \<Longrightarrow> norm_up a = a"
  by (simp add: norm_up.simps)

lemma norm_down_le: "norm_down a \<le> 180"
  by (induction a rule: norm_down.induct) (simp add: norm_down.simps)

lemma norm_up_ge: "- 180 \<le> norm_up a"
  by (induction a rule: norm_up.induct) (simp add: norm_up.simps)

lemma norm_up_lt: "a < - 180 \<Longrightarrow> norm_up a < 180"
proof (induction a rule: norm_up.induct)
  case (1 angle)
  show ?case
  proof (cases "angle + 360 < - 180")
    case True
    with 1 show ?thesis by (simp add: norm_up.simps [of angle])
  next
    case False
    with 1(2) show ?thesis by (simp add: norm_up.simps [of angle] norm_up_id)
  qed
qed

lemma normalize_angle_lower: "- 180 \<le> normalize_angle a"
  by (simp add: normalize_angle_def norm_up_ge)

lemma normalize_angle_upper: "normalize_angle a \<le> 180"
proof (cases "norm_down a < - 180")
  case True
  then show ?thesis using norm_up_lt [of "norm_down a"] by (simp add: normalize_angle_def)
next
  case False
  then show ?thesis using norm_down_le [of a] by (simp add: normalize_angle_def norm_up_id)
qed

lemma normalize_angle_id: "- 180 \<le> a \<Longrightarrow> a \<le> 180 \<Longrightarrow> normalize_angle a = a"
  by (simp add: normalize_angle_def norm_down_id norm_up_id)

lemma normalize_angle_idem: "normalize_angle (normalize_angle a) = normalize_angle a"
  by (simp add: normalize_angle_id normalize_angle_lower normalize_angle_upper)

subsection \<open>Normalisation of float angles\<close>

text \<open>With exact arithmetic the two embeddings of \<open>normalize_angle\<close> agree.\<close>

lemma normalize_angle_fl_exact: "normalize_angle_fl (\<lambda>x. x) a = Some (normalize_angle a)"
proof -
  have d: "norm_down_fl (\<lambda>x. x) b = Some (norm_down b)" for b
    by (induction b rule: norm_down.induct)
       (subst norm_down_fl.simps, subst norm_down.simps, simp)
  have u: "norm_up_fl (\<lambda>x. x) b = Some (norm_up b)" for b
    by (induction b rule: norm_up.induct)
       (subst norm_up_fl.simps, subst norm_up.simps, simp)
  show ?thesis by (simp add: normalize_angle_fl_def normalize_angle_def d u)
qed

text \<open>What the loops return lies between -180 and 180.\<close>

lemma norm_down_fl_le:
  assumes "norm_down_fl rnd a = Some r"
  shows "r \<le> 180"
proof (rule norm_down_fl.raw_induct [where P = "\<lambda>rnd a r. r \<le> 180", OF _ assms])
  fix f :: "(real \<Rightarrow> real) \<Rightarrow> real \<Rightarrow> real option" and rnd a r
  assume IH: "\<And>rnd b y. f rnd b = Some y \<Longrightarrow> y \<le> 180"
    and eq: "(if 180 < a then f rnd (rnd (a - 360)) else Some a) = Some r"
  show "r \<le> 180"
  proof (cases "180 < a")
    case True
    with eq IH show ?thesis by simp
  next
    case False
    with eq show ?thesis by simp
  qed
qed

lemma norm_up_fl_ge:
  assumes "norm_up_fl rnd a = Some r"
  shows "- 180 \<le> r"
proof (rule norm_up_fl.raw_induct [where P = "\<lambda>rnd a r. - 180 \<le> r", OF _ assms])
  fix f :: "(real \<Rightarrow> real) \<Rightarrow> real \<Rightarrow> real option" and rnd a r
  assume IH: "\<And>rnd b y. f rnd b = Some y \<Longrightarrow> - 180 \<le> y"
    and eq: "(if a < - 180 then f rnd (rnd (a + 360)) else Some a) = Some r"
  show "- 180 \<le> r"
  proof (cases "a < - 180")
    case True
    with eq IH show ?thesis by simp
  next
    case False
    with eq show ?thesis by simp
  qed
qed

lemma contract_mono: "binary64_contract rnd \<Longrightarrow> x \<le> y \<Longrightarrow> rnd x \<le> rnd y"
  by (simp add: binary64_contract_def)

lemma contract_le_180: "binary64_contract rnd \<Longrightarrow> x \<le> 180 \<Longrightarrow> rnd x \<le> 180"
  using contract_mono [of rnd x 180] by (simp add: binary64_contract_def)

lemma contract_ge_minus_180: "binary64_contract rnd \<Longrightarrow> - 180 \<le> x \<Longrightarrow> - 180 \<le> rnd x"
  using contract_mono [of rnd "- 180" x] by (simp add: binary64_contract_def)

lemma norm_up_fl_le:
  assumes c: "binary64_contract rnd" and r: "norm_up_fl rnd a = Some r"
  shows "a \<le> 180 \<longrightarrow> r \<le> 180"
proof -
  have "binary64_contract rnd \<longrightarrow> a \<le> 180 \<longrightarrow> r \<le> 180"
  proof (rule norm_up_fl.raw_induct
      [where P = "\<lambda>rnd a r. binary64_contract rnd \<longrightarrow> a \<le> 180 \<longrightarrow> r \<le> 180", OF _ r])
    fix f :: "(real \<Rightarrow> real) \<Rightarrow> real \<Rightarrow> real option" and rnd a r
    assume IH: "\<And>rnd b y. f rnd b = Some y \<Longrightarrow>
        binary64_contract rnd \<longrightarrow> b \<le> 180 \<longrightarrow> y \<le> 180"
      and eq: "(if a < - 180 then f rnd (rnd (a + 360)) else Some a) = Some r"
    show "binary64_contract rnd \<longrightarrow> a \<le> 180 \<longrightarrow> r \<le> 180"
    proof (intro impI)
      assume c: "binary64_contract rnd" and a: "a \<le> 180"
      show "r \<le> 180"
      proof (cases "a < - 180")
        case True
        then have "a + 360 \<le> 180" by simp
        with c have le: "rnd (a + 360) \<le> 180" by (rule contract_le_180)
        from True eq have "f rnd (rnd (a + 360)) = Some r" by simp
        from IH [OF this] c le show ?thesis by simp
      next
        case False
        with eq a show ?thesis by simp
      qed
    qed
  qed
  with c show ?thesis by simp
qed

lemma normalize_angle_fl_range:
  assumes "binary64_contract rnd" "normalize_angle_fl rnd a = Some r"
  shows "- 180 \<le> r \<and> r \<le> 180"
proof -
  from assms(2) obtain b where b: "norm_down_fl rnd a = Some b" and r: "norm_up_fl rnd b = Some r"
    by (auto simp add: normalize_angle_fl_def split: option.splits)
  from norm_down_fl_le [OF b] norm_up_fl_le [OF assms(1) r] norm_up_fl_ge [OF r]
  show ?thesis by simp
qed

text \<open>Up to a magnitude of \<open>2^61\<close> each pass of a loop moves the angle by more than 100,
  so the loops end.\<close>

lemma contract_error:
  assumes "binary64_contract rnd" "\<bar>x\<bar> \<le> 2 ^ 61 + 360"
  shows "\<bar>rnd x - x\<bar> \<le> 257"
proof -
  from assms(1) have "\<bar>rnd x - x\<bar> \<le> \<bar>x\<bar> / 2 ^ 53"
    by (simp add: binary64_contract_def)
  also from assms(2) have "\<bar>x\<bar> / 2 ^ 53 \<le> (2 ^ 61 + 360) / 2 ^ 53"
    by (simp add: divide_right_mono)
  also have "(2 ^ 61 + 360) / 2 ^ 53 \<le> (257 :: real)" by simp
  finally show ?thesis .
qed

lemma norm_down_fl_total:
  assumes c: "binary64_contract rnd"
  shows "a \<le> 2 ^ 61 \<Longrightarrow> \<exists>r. norm_down_fl rnd a = Some r \<and> min a (- 180) \<le> r"
proof (induction "nat \<lceil>a\<rceil>" arbitrary: a rule: less_induct)
  case less
  show ?case
  proof (cases "180 < a")
    case False
    then show ?thesis by (subst norm_down_fl.simps) simp
  next
    case True
    let ?b = "rnd (a - 360)"
    from True less.prems have "\<bar>a - 360\<bar> \<le> 2 ^ 61 + 360" by simp
    from contract_error [OF c this] have err: "\<bar>?b - (a - 360)\<bar> \<le> 257" .
    then have lt: "?b \<le> a - 103" by simp
    from True have ge: "- 180 \<le> ?b" by (intro contract_ge_minus_180 [OF c]) simp
    from lt True have "nat \<lceil>?b\<rceil> < nat \<lceil>a\<rceil>" by linarith
    moreover from lt less.prems have "?b \<le> 2 ^ 61" by simp
    ultimately obtain r where r: "norm_down_fl rnd ?b = Some r" "min ?b (- 180) \<le> r"
      using less.hyps by blast
    from r True ge show ?thesis by (subst norm_down_fl.simps) auto
  qed
qed

lemma norm_up_fl_total:
  assumes c: "binary64_contract rnd"
  shows "- (2 ^ 61) \<le> a \<Longrightarrow> \<exists>r. norm_up_fl rnd a = Some r"
proof (induction "nat \<lceil>- a\<rceil>" arbitrary: a rule: less_induct)
  case less
  show ?case
  proof (cases "a < - 180")
    case False
    then show ?thesis by (subst norm_up_fl.simps) simp
  next
    case True
    let ?b = "rnd (a + 360)"
    from True less.prems have "\<bar>a + 360\<bar> \<le> 2 ^ 61 + 360" by simp
    from contract_error [OF c this] have err: "\<bar>?b - (a + 360)\<bar> \<le> 257" .
    then have gt: "a + 103 \<le> ?b" by simp
    from gt True have "nat \<lceil>- ?b\<rceil> < nat \<lceil>- a\<rceil>" by linarith
    moreover from gt less.prems have "- (2 ^ 61) \<le> ?b" by simp
    ultimately obtain r where r: "norm_up_fl rnd ?b = Some r"
      using less.hyps by blast
    from r True show ?thesis by (subst norm_up_fl.simps) auto
  qed
qed

lemma normalize_angle_fl_total:
  assumes c: "binary64_contract rnd" and a: "\<bar>a\<bar> \<le> 2 ^ 61"
  shows "\<exists>r. normalize_angle_fl rnd a = Some r"
proof -
  from a have "a \<le> 2 ^ 61" by simp
  from norm_down_fl_total [OF c this]
  obtain b where b: "norm_down_fl rnd a = Some b" "min a (- 180) \<le> b" by blast
  from a b(2) have "- (2 ^ 61) \<le> b" by simp
  from norm_up_fl_total [OF c this] obtain r where "norm_up_fl rnd b = Some r" by blast
  with b(1) show ?thesis by (simp add: normalize_angle_fl_def)
qed

text \<open>Binary64 rounding keeps the contract.\<close>

lemma rhe_cases: "round_half_even q = \<lfloor>q\<rfloor> \<or> round_half_even q = \<lfloor>q\<rfloor> + 1"
  by (simp add: round_half_even_def Let_def)

lemma rhe_err: "\<bar>of_int (round_half_even q) - q\<bar> \<le> 1 / 2"
  unfolding round_half_even_def Let_def by (auto split: if_splits)

lemma rhe_int: "round_half_even (of_int k) = k"
  by (simp add: round_half_even_def)

lemma rhe_mono:
  assumes "q \<le> q'"
  shows "round_half_even q \<le> round_half_even q'"
proof (cases "\<lfloor>q\<rfloor> = \<lfloor>q'\<rfloor>")
  case True
  with assms have "q - of_int \<lfloor>q\<rfloor> \<le> q' - of_int \<lfloor>q'\<rfloor>" by simp
  with True show ?thesis
    by (auto simp add: round_half_even_def Let_def)
next
  case False
  with assms have "\<lfloor>q\<rfloor> < \<lfloor>q'\<rfloor>" by (simp add: floor_mono order.strict_iff_order)
  moreover have "round_half_even q \<le> \<lfloor>q\<rfloor> + 1" using rhe_cases [of q] by auto
  moreover have "\<lfloor>q'\<rfloor> \<le> round_half_even q'" using rhe_cases [of q'] by auto
  ultimately show ?thesis by simp
qed

lemma rhe_minus: "round_half_even (- q) = - round_half_even q"
proof (cases "q = of_int \<lfloor>q\<rfloor>")
  case True
  then obtain k :: int where "q = of_int k" by blast
  then have "round_half_even q = k" "round_half_even (- q) = - k"
    using rhe_int [of k] rhe_int [of "- k"] by simp_all
  then show ?thesis by simp
next
  case False
  then have "- \<lfloor>- q\<rfloor> = \<lfloor>q\<rfloor> + 1"
    using ceiling_altdef [of q] unfolding ceiling_def by simp
  then have fl: "\<lfloor>- q\<rfloor> = - \<lfloor>q\<rfloor> - 1" by simp
  have d: "q - of_int \<lfloor>q\<rfloor> < 1" "0 < q - of_int \<lfloor>q\<rfloor>"
    using False by linarith+
  show ?thesis
    unfolding round_half_even_def Let_def fl using d
    by (auto split: if_splits)
qed

lemma binade:
  assumes "x \<noteq> 0"
  shows "2 powr of_int \<lfloor>log 2 \<bar>x\<bar>\<rfloor> \<le> \<bar>x\<bar>"
    and "\<bar>x\<bar> < 2 powr (of_int \<lfloor>log 2 \<bar>x\<bar>\<rfloor> + 1)"
proof -
  from assms have pos: "0 < \<bar>x\<bar>" by simp
  have "\<lfloor>log 2 \<bar>x\<bar>\<rfloor> = \<lfloor>log 2 \<bar>x\<bar>\<rfloor>" by simp
  then have "2 powr of_int \<lfloor>log 2 \<bar>x\<bar>\<rfloor> \<le> \<bar>x\<bar> \<and> \<bar>x\<bar> < 2 powr (of_int \<lfloor>log 2 \<bar>x\<bar>\<rfloor> + 1)"
    using floor_log_eq_powr_iff [OF pos, of 2 "\<lfloor>log 2 \<bar>x\<bar>\<rfloor>"] by simp
  then show "2 powr of_int \<lfloor>log 2 \<bar>x\<bar>\<rfloor> \<le> \<bar>x\<bar>"
    and "\<bar>x\<bar> < 2 powr (of_int \<lfloor>log 2 \<bar>x\<bar>\<rfloor> + 1)" by simp_all
qed

lemma binary64_round_err: "\<bar>binary64_round x - x\<bar> \<le> \<bar>x\<bar> / 2 ^ 53"
proof (cases "x = 0")
  case True
  then show ?thesis by (simp add: binary64_round_def)
next
  case False
  define e where "e = \<lfloor>log 2 \<bar>x\<bar>\<rfloor>"
  define u :: real where "u = 2 powr (of_int e - 52)"
  have u: "0 < u" by (simp add: u_def)
  have r: "binary64_round x = u * of_int (round_half_even (x / u))"
    using False by (simp add: binary64_round_def Let_def u_def e_def)
  have "binary64_round x - x = u * (of_int (round_half_even (x / u)) - x / u)"
    using u by (simp add: r algebra_simps)
  then have "\<bar>binary64_round x - x\<bar> = u * \<bar>of_int (round_half_even (x / u)) - x / u\<bar>"
    using u by (simp add: abs_mult)
  also have "\<dots> \<le> u * (1 / 2)"
    using u rhe_err [of "x / u"] by (intro mult_left_mono) simp_all
  also have "u * (1 / 2) = 2 powr of_int e / 2 ^ 53"
    by (simp add: u_def powr_diff powr_numeral)
  also have "\<dots> \<le> \<bar>x\<bar> / 2 ^ 53"
    using binade(1) [OF False] by (simp add: e_def divide_right_mono)
  finally show ?thesis .
qed

lemma binary64_round_minus: "binary64_round (- x) = - binary64_round x"
  by (simp add: binary64_round_def Let_def rhe_minus)

lemma binary64_round_binade:
  assumes "0 < x"
  shows "2 powr of_int \<lfloor>log 2 x\<rfloor> \<le> binary64_round x"
    and "binary64_round x \<le> 2 powr (of_int \<lfloor>log 2 x\<rfloor> + 1)"
proof -
  define e where "e = \<lfloor>log 2 x\<rfloor>"
  define u :: real where "u = 2 powr (of_int e - 52)"
  have u: "0 < u" by (simp add: u_def)
  from assms have ne: "x \<noteq> 0" and ax: "\<bar>x\<bar> = x" by simp_all
  have r: "binary64_round x = u * of_int (round_half_even (x / u))"
    using ne ax by (simp add: binary64_round_def Let_def u_def e_def)
  have lo: "2 powr of_int e \<le> x" and hi: "x < 2 powr (of_int e + 1)"
    using binade [OF ne] ax by (simp_all add: e_def)
  have ulo: "u * 2 ^ 52 = 2 powr of_int e" and uhi: "u * 2 ^ 53 = 2 powr (of_int e + 1)"
    by (simp_all add: u_def powr_diff powr_add powr_numeral)
  from lo ulo u have "2 ^ 52 \<le> x / u" by (simp add: pos_le_divide_eq mult.commute)
  then have "round_half_even (of_int (2 ^ 52)) \<le> round_half_even (x / u)"
    by (intro rhe_mono) simp
  then have a: "2 ^ 52 \<le> round_half_even (x / u)" by (simp only: rhe_int)
  from hi uhi u have "x / u < 2 ^ 53" by (simp add: pos_divide_less_eq mult.commute)
  then have "x / u \<le> of_int (2 ^ 53)" by simp
  then have "round_half_even (x / u) \<le> round_half_even (of_int (2 ^ 53))"
    by (rule rhe_mono)
  then have b: "round_half_even (x / u) \<le> 2 ^ 53" by (simp only: rhe_int)
  from a have "u * 2 ^ 52 \<le> u * of_int (round_half_even (x / u))"
    using u by (intro mult_left_mono) (simp_all add: of_int_le_iff [symmetric] del: of_int_le_iff)
  with ulo r show "2 powr of_int \<lfloor>log 2 x\<rfloor> \<le> binary64_round x" by (simp add: e_def)
  from b have "u * of_int (round_half_even (x / u)) \<le> u * 2 ^ 53"
    using u by (intro mult_left_mono) (simp_all add: of_int_le_iff [symmetric] del: of_int_le_iff)
  with uhi r show "binary64_round x \<le> 2 powr (of_int \<lfloor>log 2 x\<rfloor> + 1)" by (simp add: e_def)
qed

lemma binary64_round_pos: "0 < x \<Longrightarrow> 0 < binary64_round x"
  using binary64_round_binade(1) [of x] powr_gt_zero [of 2 "of_int \<lfloor>log 2 x\<rfloor>"]
  by linarith

lemma binary64_round_mono_pos:
  assumes "0 < x" "x \<le> y"
  shows "binary64_round x \<le> binary64_round y"
proof -
  from assms have y: "0 < y" by simp
  from assms have "log 2 x \<le> log 2 y" by simp
  then have e: "\<lfloor>log 2 x\<rfloor> \<le> \<lfloor>log 2 y\<rfloor>" by (rule floor_mono)
  show ?thesis
  proof (cases "\<lfloor>log 2 x\<rfloor> = \<lfloor>log 2 y\<rfloor>")
    case True
    define u :: real where "u = 2 powr (of_int \<lfloor>log 2 y\<rfloor> - 52)"
    have u: "0 < u" by (simp add: u_def)
    from assms y True have rx: "binary64_round x = u * of_int (round_half_even (x / u))"
      and ry: "binary64_round y = u * of_int (round_half_even (y / u))"
      by (simp_all add: binary64_round_def Let_def u_def)
    from assms(2) u have "x / u \<le> y / u" by (simp add: divide_right_mono)
    then have "round_half_even (x / u) \<le> round_half_even (y / u)" by (rule rhe_mono)
    then have "u * of_int (round_half_even (x / u)) \<le> u * of_int (round_half_even (y / u))"
      using u by (intro mult_left_mono) simp_all
    then show ?thesis by (simp add: rx ry)
  next
    case False
    with e have "\<lfloor>log 2 x\<rfloor> + 1 \<le> \<lfloor>log 2 y\<rfloor>" by simp
    then have "(of_int \<lfloor>log 2 x\<rfloor> + 1 :: real) \<le> of_int \<lfloor>log 2 y\<rfloor>"
      by (metis of_int_1 of_int_add of_int_le_iff)
    then have "(2::real) powr (of_int \<lfloor>log 2 x\<rfloor> + 1) \<le> 2 powr of_int \<lfloor>log 2 y\<rfloor>"
      by (intro powr_mono) simp_all
    with binary64_round_binade(2) [OF assms(1)] binary64_round_binade(1) [OF y]
    show ?thesis by linarith
  qed
qed

lemma binary64_round_zero: "binary64_round 0 = 0"
  by (simp add: binary64_round_def)

lemma binary64_round_mono:
  assumes "x \<le> y"
  shows "binary64_round x \<le> binary64_round y"
proof -
  consider "0 < x" | "x \<le> 0" "0 \<le> y" | "y < 0" by linarith
  then show ?thesis
  proof cases
    case 1
    from this assms show ?thesis by (rule binary64_round_mono_pos)
  next
    case 2
    have "binary64_round x \<le> 0"
    proof (cases "x = 0")
      case True
      then show ?thesis by (simp add: binary64_round_zero)
    next
      case False
      with 2(1) have "0 < - x" by simp
      from binary64_round_pos [OF this] show ?thesis by (simp add: binary64_round_minus)
    qed
    moreover have "0 \<le> binary64_round y"
    proof (cases "y = 0")
      case True
      then show ?thesis by (simp add: binary64_round_zero)
    next
      case False
      with 2(2) have "0 < y" by simp
      from binary64_round_pos [OF this] show ?thesis by simp
    qed
    ultimately show ?thesis by simp
  next
    case 3
    with assms have "0 < - y" "- y \<le> - x" by simp_all
    from binary64_round_mono_pos [OF this] show ?thesis by (simp add: binary64_round_minus)
  qed
qed

lemma floor_log2_180: "\<lfloor>log 2 (180 :: real)\<rfloor> = 7"
  by (subst floor_log_eq_powr_iff) (simp_all add: powr_numeral)

lemma binary64_round_180: "binary64_round 180 = 180"
proof -
  have u: "(2::real) powr (of_int \<lfloor>log 2 \<bar>180 :: real\<bar>\<rfloor> - 52) = 1 / 2 ^ 45"
    using floor_log2_180 by (simp add: powr_minus_divide powr_numeral)
  have q: "(180 :: real) / (1 / 2 ^ 45) = of_int (180 * 2 ^ 45)" by simp
  show ?thesis
    unfolding binary64_round_def Let_def u q rhe_int by simp
qed

lemma binary64_round_contract: "binary64_contract binary64_round"
proof -
  have "binary64_round (- 180) = - 180"
    using binary64_round_minus [of 180] by (simp add: binary64_round_180)
  with binary64_round_mono binary64_round_err binary64_round_180 show ?thesis
    unfolding binary64_contract_def by blast
qed

text \<open>At \<open>10^19\<close> the floats are 2048 apart: subtracting 360 gives back the same float, and
  the first loop never ends.\<close>

lemma floor_log2_1e19: "\<lfloor>log 2 (9999999999999999640 :: real)\<rfloor> = 63"
  by (subst floor_log_eq_powr_iff) (simp_all add: powr_numeral)

lemma binary64_absorbs_360: "binary64_round 9999999999999999640 = 10000000000000000000"
proof -
  have u: "(2::real) powr (of_int \<lfloor>log 2 \<bar>9999999999999999640 :: real\<bar>\<rfloor> - 52) = 2048"
    using floor_log2_1e19 by (simp add: powr_numeral)
  have fl: "\<lfloor>9999999999999999640 / 2048 :: real\<rfloor> = 4882812499999999"
    by (simp add: floor_eq_iff)
  show ?thesis
    unfolding binary64_round_def Let_def u
    by (simp add: round_half_even_def fl Let_def)
qed

lemma norm_down_fl_absorbed:
  assumes abs: "rnd 9999999999999999640 = 10000000000000000000"
  shows "norm_down_fl rnd 10000000000000000000 = None"
proof (cases "norm_down_fl rnd 10000000000000000000")
  case None
  then show ?thesis .
next
  case (Some y)
  have "rnd 9999999999999999640 = 10000000000000000000 \<longrightarrow> 10000000000000000000 \<noteq> (10000000000000000000 :: real)"
  proof (rule norm_down_fl.raw_induct
      [where P = "\<lambda>rnd a r. rnd 9999999999999999640 = 10000000000000000000 \<longrightarrow> a \<noteq> 10000000000000000000",
        OF _ Some])
    fix f :: "(real \<Rightarrow> real) \<Rightarrow> real \<Rightarrow> real option" and rnd a r
    assume IH: "\<And>rnd b y. f rnd b = Some y \<Longrightarrow>
        rnd 9999999999999999640 = 10000000000000000000 \<longrightarrow> b \<noteq> 10000000000000000000"
      and eq: "(if 180 < a then f rnd (rnd (a - 360)) else Some a) = Some r"
    show "rnd 9999999999999999640 = 10000000000000000000 \<longrightarrow> a \<noteq> 10000000000000000000"
    proof (intro impI notI)
      assume r: "rnd 9999999999999999640 = 10000000000000000000"
        and a: "a = 10000000000000000000"
      from eq a have "f rnd (rnd 9999999999999999640) = Some r" by simp
      with r have "f rnd 10000000000000000000 = Some r" by simp
      from IH [OF this] r show False by simp
    qed
  qed
  with abs show ?thesis by simp
qed

lemma norm_down_fl_diverges: "norm_down_fl binary64_round 10000000000000000000 = None"
  by (rule norm_down_fl_absorbed) (rule binary64_absorbs_360)

text \<open>
  C4 (as amended). For every rounding that keeps the contract of binary64 arithmetic:
  for every input of magnitude at most \<open>2^61\<close> \<open>normalize_angle\<close> returns, and whenever it
  returns (for any input) the value lies in the closed interval from -180 to 180; an
  input already in that interval, -180 included, is returned unchanged. The function
  takes and returns an angle only.
\<close>

theorem normalize_angle_closed_range:
  assumes "binary64_contract rnd"
  shows "(\<bar>a\<bar> \<le> 2 ^ 61 \<longrightarrow>
            (\<exists>r. normalize_angle_fl rnd a = Some r \<and> - 180 \<le> r \<and> r \<le> 180)) \<and>
         (\<forall>r. normalize_angle_fl rnd a = Some r \<longrightarrow> - 180 \<le> r \<and> r \<le> 180) \<and>
         (- 180 \<le> a \<and> a \<le> 180 \<longrightarrow> normalize_angle_fl rnd a = Some a)"
proof (intro conjI impI allI)
  assume "\<bar>a\<bar> \<le> 2 ^ 61"
  from normalize_angle_fl_total [OF assms this]
  obtain r where r: "normalize_angle_fl rnd a = Some r" by blast
  with normalize_angle_fl_range [OF assms r]
  show "\<exists>r. normalize_angle_fl rnd a = Some r \<and> - 180 \<le> r \<and> r \<le> 180" by blast
next
  fix r
  assume "normalize_angle_fl rnd a = Some r"
  from normalize_angle_fl_range [OF assms this] show "- 180 \<le> r" and "r \<le> 180" by simp_all
next
  assume "- 180 \<le> a \<and> a \<le> 180"
  then show "normalize_angle_fl rnd a = Some a"
    by (simp add: normalize_angle_fl_def norm_down_fl.simps [of rnd a] norm_up_fl.simps [of rnd a])
qed

theorem normalize_angle_closed_range_witness:
  "(\<exists>r. normalize_angle_fl binary64_round 900 = Some r \<and> - 180 \<le> r \<and> r \<le> 180) \<and>
   normalize_angle_fl binary64_round (- 180) = Some (- 180)"
  using normalize_angle_closed_range [OF binary64_round_contract, of 900]
    normalize_angle_closed_range [OF binary64_round_contract, of "- 180"]
  by simp

text \<open>C4 as stated fails twice: the input -180 is returned unchanged and is not in the
  half-open interval, and on the finite input \<open>10^19\<close> the function never returns.\<close>

theorem normalize_angle_minus_180_and_no_return:
  "normalize_angle_fl binary64_round (- 180) = Some (- 180) \<and>
   normalize_angle_fl binary64_round 10000000000000000000 = None"
  by (simp add: normalize_angle_fl_def norm_down_fl_diverges
      norm_down_fl.simps [of binary64_round "- 180"] norm_up_fl.simps [of binary64_round "- 180"])

subsection \<open>The heading stays within 120 degrees of the initial heading\<close>

lemma would_cause_backtrack_iff:
  "limits_ok g \<Longrightarrow> would_cause_backtrack g p \<longleftrightarrow> 120 < \<bar>normalize_angle p\<bar>"
  by (simp add: would_cause_backtrack_def limits_ok_def)

lemma init_limits_ok: "limits_ok (TrackGenerator_init R sd sl np)"
  by (simp add: TrackGenerator_init_def limits_ok_def split: prod.splits)

lemma init_heading_ok: "heading_ok (TrackGenerator_init R sd sl np)"
  by (simp add: TrackGenerator_init_def heading_ok_def normalize_angle_id split: prod.splits)

lemma step_turn_frame [simp]:
  "initial_direction (step_turn g) = initial_direction g"
  "backtrack_threshold (step_turn g) = backtrack_threshold g"
  "max_cumulative_turn (step_turn g) = max_cumulative_turn g"
  by (simp_all add: step_turn_def Let_def)

lemma move_forward_frame [simp]:
  "initial_direction (move_forward g) = initial_direction g"
  "backtrack_threshold (move_forward g) = backtrack_threshold g"
  "max_cumulative_turn (move_forward g) = max_cumulative_turn g"
  by (simp_all add: move_forward_def Let_def split: prod.splits)

lemma start_big_turn_frame:
  assumes "start_big_turn R g = Inr g'"
  shows "initial_direction g' = initial_direction g"
    and "backtrack_threshold g' = backtrack_threshold g"
    and "max_cumulative_turn g' = max_cumulative_turn g"
  using assms
  by (auto simp add: start_big_turn_def Let_def split: prod.splits if_splits)

lemma choose_heading_frame:
  assumes "choose_heading R g = Inr g'"
  shows "initial_direction g' = initial_direction g"
    and "backtrack_threshold g' = backtrack_threshold g"
    and "max_cumulative_turn g' = max_cumulative_turn g"
  using assms unfolding choose_heading_def
  by (auto simp add: Let_def split: prod.splits if_splits dest: start_big_turn_frame)

lemma generate_next_point_limits:
  "generate_next_point R g = Inr g' \<Longrightarrow> limits_ok g \<Longrightarrow> limits_ok g'"
  by (auto simp add: generate_next_point_def limits_ok_def
      split: sum.splits dest: choose_heading_frame)

lemma heading_ok_0: "limits_ok g \<Longrightarrow> heading_ok g \<longleftrightarrow> \<bar>normalize_angle (current_direction_angle g)\<bar> \<le> 120"
  by (simp add: heading_ok_def limits_ok_def)

lemma step_turn_heading: "limits_ok g \<Longrightarrow> heading_ok g \<Longrightarrow> heading_ok (step_turn g)"
  by (simp add: step_turn_def heading_ok_def limits_ok_def would_cause_backtrack_def Let_def
      normalize_angle_idem)

lemma safe_turn_heading:
  assumes "limits_ok g" "heading_ok g"
  shows "\<bar>normalize_angle (normalize_angle (current_direction_angle g + get_safe_turn_angle g d))\<bar> \<le> 120"
  using assms
  by (simp add: get_safe_turn_angle_def would_cause_backtrack_iff heading_ok_0 Let_def
      normalize_angle_idem)

lemma start_big_turn_heading:
  "start_big_turn R g = Inr g' \<Longrightarrow> current_direction_angle g' = current_direction_angle g"
  by (auto simp add: start_big_turn_def Let_def split: prod.splits if_splits)

lemma choose_heading_heading:
  assumes "choose_heading R g = Inr g'" "limits_ok g" "heading_ok g"
  shows "heading_ok g'"
proof -
  have lim: "limits_ok g'"
    using assms(1,2) by (auto simp add: limits_ok_def dest: choose_heading_frame)
  have safe: "\<bar>normalize_angle (normalize_angle (current_direction_angle g + get_safe_turn_angle (g\<lparr>steps_until_next_turn := n, rng := r\<rparr>) d))\<bar> \<le> 120" for n r d
    using safe_turn_heading [of "g\<lparr>steps_until_next_turn := n, rng := r\<rparr>" d] assms(2,3)
    by (simp add: limits_ok_def heading_ok_def)
  show ?thesis
  proof (cases "turning g")
    case True
    with assms show ?thesis by (auto simp add: choose_heading_def step_turn_heading)
  next
    case nt: False
    show ?thesis
    proof (cases "0 < steps_until_next_turn g")
      case True
      with nt assms show ?thesis
        by (auto simp add: choose_heading_def Let_def heading_ok_def limits_ok_def
            would_cause_backtrack_def normalize_angle_idem split: prod.splits if_splits)
    next
      case False
      with nt assms(1) consider
        (small) n r d where "current_direction_angle g' =
            normalize_angle (current_direction_angle g + get_safe_turn_angle (g\<lparr>steps_until_next_turn := n, rng := r\<rparr>) d)"
        | (big) g1 where "start_big_turn R g1 = Inr g'" "current_direction_angle g1 = current_direction_angle g"
        by (auto simp add: choose_heading_def Let_def split: prod.splits if_splits)
      then show ?thesis
      proof cases
        case small
        with safe [where n = n and r = r and d = d] lim show ?thesis by (simp add: heading_ok_0)
      next
        case big
        with start_big_turn_heading [OF big(1)] lim assms(2,3) show ?thesis
          by (simp add: heading_ok_0)
      qed
    qed
  qed
qed

lemma generate_next_point_heading:
  assumes "generate_next_point R g = Inr g'" "limits_ok g \<and> heading_ok g"
  shows "limits_ok g' \<and> heading_ok g'"
proof -
  from assms(1) obtain g1 where g1: "choose_heading R g = Inr g1" and g': "g' = move_forward g1"
    by (auto simp add: generate_next_point_def split: sum.splits)
  from g1 assms(2) have "heading_ok g1" by (simp add: choose_heading_heading)
  then have "heading_ok g'" by (simp add: g' heading_ok_def move_forward_def Let_def split: prod.splits)
  with assms show ?thesis by (simp add: generate_next_point_limits)
qed

lemma run_steps_invariant:
  assumes step: "\<And>g g'. generate_next_point R g = Inr g' \<Longrightarrow> P g \<Longrightarrow> P g'"
  shows "run_steps R n g = Inr g' \<Longrightarrow> P g \<Longrightarrow> P g'"
proof (induction n arbitrary: g)
  case 0
  then show ?case by simp
next
  case (Suc n)
  then show ?case by (auto split: sum.splits dest: step)
qed

lemma contract_randint:
  "rng_contract R \<Longrightarrow> a \<le> b \<Longrightarrow> randint R a b r = (n, r') \<Longrightarrow> a \<le> n \<and> n \<le> b"
  unfolding rng_contract_def by (metis fst_conv)

lemma start_big_turn_total:
  assumes "rng_contract R"
  shows "\<exists>g'. start_big_turn R g = Inr g'"
  using contract_randint [OF assms, of 15 30]
  by (fastforce simp add: start_big_turn_def Let_def split: prod.splits)

lemma choose_heading_total:
  assumes "rng_contract R"
  shows "\<exists>g'. choose_heading R g = Inr g'"
  using start_big_turn_total [OF assms]
  by (simp add: choose_heading_def Let_def split: prod.splits)

lemma generate_next_point_total:
  assumes "rng_contract R"
  shows "\<exists>g'. generate_next_point R g = Inr g'"
  using choose_heading_total [OF assms, of g]
  by (auto simp add: generate_next_point_def)

lemma run_steps_total:
  assumes "rng_contract R"
  shows "\<exists>g'. run_steps R n g = Inr g'"
proof (induction n arbitrary: g)
  case 0
  show ?case by simp
next
  case (Suc n)
  obtain g1 where "generate_next_point R g = Inr g1"
    using generate_next_point_total [OF assms] by blast
  with Suc [of g1] show ?case by simp
qed

lemma tape_rng_contract: "rng_contract tape_rng"
proof -
  have ri: "a \<le> fst (tape_randint a b r) \<and> fst (tape_randint a b r) \<le> b" if "a \<le> b" for a b r
  proof -
    from that have pos: "0 < b - a + 1" by simp
    have "0 \<le> int (fst (tape_next r)) mod (b - a + 1)"
      using pos by (rule pos_mod_sign)
    moreover have "int (fst (tape_next r)) mod (b - a + 1) < b - a + 1"
      using pos by (rule pos_mod_bound)
    ultimately show ?thesis by (cases "tape_next r") (simp add: tape_randint_def)
  qed
  have rr: "0 \<le> fst (tape_random r) \<and> fst (tape_random r) < 1" for r
    by (cases "tape_next r") (simp add: tape_random_def)
  have ru: "a \<le> fst (tape_uniform a b r) \<and> fst (tape_uniform a b r) \<le> b" if "a \<le> b" for a b r
  proof -
    have "0 \<le> (b - a) * fst (tape_random r)"
      using that rr [of r] by simp
    moreover have "(b - a) * fst (tape_random r) \<le> (b - a) * 1"
      using that rr [of r] by (intro mult_left_mono) simp_all
    ultimately show ?thesis by (cases "tape_random r") (simp add: tape_uniform_def)
  qed
  show ?thesis
    using ri ru rr by (simp add: rng_contract_def tape_rng_def)
qed

text \<open>
  C1. For every random source that keeps its contract, every seed and every number \<open>n\<close> of
  calls of \<open>generate_next_point\<close> on a fresh generator, the calls return and the heading
  reached is within 120 degrees of the initial heading. A step inside a big turn is one
  of the \<open>n\<close> calls like any other.
\<close>

theorem heading_never_backtracks:
  assumes "rng_contract R"
  shows "\<exists>g. run_steps R n (TrackGenerator_init R sd sl np) = Inr g \<and>
             \<bar>normalize_angle (current_direction_angle g - initial_direction g)\<bar> \<le> 120"
proof -
  obtain g where g: "run_steps R n (TrackGenerator_init R sd sl np) = Inr g"
    using run_steps_total [OF assms] by blast
  have "limits_ok g \<and> heading_ok g"
    using g
  proof (rule run_steps_invariant [where P = "\<lambda>g. limits_ok g \<and> heading_ok g", rotated])
    show "limits_ok (TrackGenerator_init R sd sl np) \<and> heading_ok (TrackGenerator_init R sd sl np)"
      by (simp add: init_limits_ok init_heading_ok)
  qed (rule generate_next_point_heading)
  with g show ?thesis by (auto simp add: heading_ok_def)
qed

theorem heading_never_backtracks_witness:
  "rng_contract tape_rng \<and>
   (\<exists>g. run_steps tape_rng 40 (TrackGenerator_init tape_rng [7, 3, 900] 10 40) = Inr g \<and>
        \<bar>normalize_angle (current_direction_angle g - initial_direction g)\<bar> \<le> 120)"
  using heading_never_backtracks [OF tape_rng_contract, of 40 "[7, 3, 900]" 10 40]
    tape_rng_contract
  by simp

subsection \<open>Points, flagged indices and the heading history\<close>

lemma step_turn_points [simp]:
  "track_points (step_turn g) = track_points g"
  "current_position (step_turn g) = current_position g"
  "turn_indices (step_turn g) = turn_indices g"
  by (simp_all add: step_turn_def Let_def)

lemma start_big_turn_points:
  assumes "start_big_turn R g = Inr g'"
  shows "track_points g' = track_points g"
    and "current_position g' = current_position g"
    and "turn_indices g' = turn_indices g @ [length (track_points g)]"
    and "previous_angles g' = previous_angles g"
  using assms
  by (auto simp add: start_big_turn_def Let_def split: prod.splits if_splits)

lemma choose_heading_points:
  assumes "choose_heading R g = Inr g'"
  shows "track_points g' = track_points g"
    and "current_position g' = current_position g"
  using assms unfolding choose_heading_def
  by (auto simp add: Let_def split: prod.splits if_splits dest: start_big_turn_points)

lemma choose_heading_turn_indices:
  assumes "choose_heading R g = Inr g'"
  shows "turn_indices g' = turn_indices g \<or>
         turn_indices g' = turn_indices g @ [length (track_points g)]"
  using assms unfolding choose_heading_def
  by (auto simp add: Let_def split: prod.splits if_splits dest: start_big_turn_points)

lemma step_turn_previous_angles:
  "\<exists>ys. previous_angles (step_turn g) = previous_angles g @ ys \<and> length ys \<le> 1"
  by (simp add: step_turn_def Let_def)

lemma choose_heading_previous_angles:
  assumes "choose_heading R g = Inr g'"
  shows "\<exists>ys. previous_angles g' = previous_angles g @ ys \<and> length ys \<le> 1"
  using assms step_turn_previous_angles [of g] unfolding choose_heading_def
  by (auto simp add: Let_def split: prod.splits if_splits dest: start_big_turn_points)

lemma move_forward_points:
  "\<exists>p. track_points (move_forward g) = track_points g @ [p] \<and>
       current_position (move_forward g) = p"
  by (simp add: move_forward_def Let_def split: prod.splits)

lemma move_forward_others [simp]:
  "turn_indices (move_forward g) = turn_indices g"
  "previous_angles (move_forward g) = previous_angles g"
  by (simp_all add: move_forward_def Let_def split: prod.splits)

lemma generate_next_point_appends:
  assumes "generate_next_point R g = Inr g'"
  shows "\<exists>p. track_points g' = track_points g @ [p] \<and> current_position g' = p"
proof -
  from assms obtain g1 where g1: "choose_heading R g = Inr g1" and g': "g' = move_forward g1"
    by (auto simp add: generate_next_point_def split: sum.splits)
  from move_forward_points [of g1] choose_heading_points [OF g1] g'
  show ?thesis by simp
qed

lemma generate_next_point_turn_indices:
  assumes "generate_next_point R g = Inr g'"
  shows "turn_indices g' = turn_indices g \<or>
         turn_indices g' = turn_indices g @ [length (track_points g)]"
proof -
  from assms obtain g1 where g1: "choose_heading R g = Inr g1" and g': "g' = move_forward g1"
    by (auto simp add: generate_next_point_def split: sum.splits)
  from choose_heading_turn_indices [OF g1] g' show ?thesis by simp
qed

lemma generate_next_point_previous_angles:
  assumes "generate_next_point R g = Inr g'"
  shows "\<exists>ys. previous_angles g' = previous_angles g @ ys \<and> length ys \<le> 1"
proof -
  from assms obtain g1 where g1: "choose_heading R g = Inr g1" and g': "g' = move_forward g1"
    by (auto simp add: generate_next_point_def split: sum.splits)
  from choose_heading_previous_angles [OF g1] g' show ?thesis by simp
qed

lemma init_points_ok: "points_ok (TrackGenerator_init R sd sl np)"
  by (simp add: points_ok_def TrackGenerator_init_def split: prod.splits)

lemma generate_next_point_points_ok:
  assumes "generate_next_point R g = Inr g'" "points_ok g"
  shows "points_ok g'"
  using generate_next_point_appends [OF assms(1)] assms(2)
  by (auto simp add: points_ok_def)

lemma run_steps_length:
  "run_steps R n g = Inr g' \<Longrightarrow> length (track_points g') = length (track_points g) + n"
proof (induction n arbitrary: g)
  case 0
  then show ?case by simp
next
  case (Suc n)
  from Suc.prems obtain g1 where g1: "generate_next_point R g = Inr g1"
    and rest: "run_steps R n g1 = Inr g'"
    by (auto split: sum.splits)
  from generate_next_point_appends [OF g1] Suc.IH [OF rest] show ?case by auto
qed

text \<open>
  C9. After construction (\<open>n = 0\<close>) and after every call of \<open>generate_next_point\<close> the
  points list is not empty, its first element is the origin and the current position is
  its last element; the next call returns and appends exactly one point.
\<close>

theorem points_track_position:
  assumes "rng_contract R"
  shows "\<exists>g. run_steps R n (TrackGenerator_init R sd sl np) = Inr g \<and>
             track_points g \<noteq> [] \<and> hd (track_points g) = (0, 0) \<and>
             current_position g = last (track_points g) \<and>
             (\<exists>g' p. generate_next_point R g = Inr g' \<and> track_points g' = track_points g @ [p])"
proof -
  obtain g where g: "run_steps R n (TrackGenerator_init R sd sl np) = Inr g"
    using run_steps_total [OF assms] by blast
  have "points_ok g"
    using g
  proof (rule run_steps_invariant [where P = points_ok, rotated])
    show "points_ok (TrackGenerator_init R sd sl np)" by (rule init_points_ok)
  qed (rule generate_next_point_points_ok)
  moreover obtain g' where g': "generate_next_point R g = Inr g'"
    using generate_next_point_total [OF assms] by blast
  moreover from generate_next_point_appends [OF g']
  obtain p where "track_points g' = track_points g @ [p]" by blast
  ultimately show ?thesis using g by (auto simp add: points_ok_def)
qed

theorem points_track_position_witness:
  "\<exists>g. run_steps tape_rng 25 (TrackGenerator_init tape_rng [7, 3, 900] 10 25) = Inr g \<and>
       track_points g \<noteq> [] \<and> hd (track_points g) = (0, 0) \<and>
       current_position g = last (track_points g) \<and>
       (\<exists>g' p. generate_next_point tape_rng g = Inr g' \<and>
              track_points g' = track_points g @ [p])"
  using points_track_position [OF tape_rng_contract, of 25 "[7, 3, 900]" 10 25]
  by simp

lemma init_turn_indices_ok: "turn_indices_ok (TrackGenerator_init R sd sl np)"
  by (simp add: turn_indices_ok_def TrackGenerator_init_def split: prod.splits)

lemma generate_next_point_turn_indices_ok:
  assumes "generate_next_point R g = Inr g'" "turn_indices_ok g"
  shows "turn_indices_ok g'"
proof -
  from generate_next_point_appends [OF assms(1)]
  have len: "length (track_points g') = Suc (length (track_points g))" by auto
  from assms(2) have old: "sorted_wrt (<) (turn_indices g)"
    "\<forall>i\<in>set (turn_indices g). i < length (track_points g)"
    by (simp_all add: turn_indices_ok_def list_all_iff)
  from generate_next_point_turn_indices [OF assms(1)] show ?thesis
  proof
    assume "turn_indices g' = turn_indices g"
    with old len show ?thesis by (auto simp add: turn_indices_ok_def list_all_iff)
  next
    assume "turn_indices g' = turn_indices g @ [length (track_points g)]"
    with old len show ?thesis
      by (auto simp add: turn_indices_ok_def list_all_iff sorted_wrt_append)
  qed
qed

text \<open>
  C3 (as amended). After every call of \<open>generate_next_point\<close> the flagged indices are
  strictly increasing (so non-decreasing and without duplicates) and each of them is a
  valid index into the points list, at most its length minus one. When the next call
  has chosen its heading and not yet appended its point, it has flagged nothing or
  the one index equal to the length of the points list at that moment.
\<close>

theorem turn_indices_increasing_valid:
  assumes "rng_contract R"
  shows "\<exists>g h. run_steps R n (TrackGenerator_init R sd sl np) = Inr g \<and>
             sorted_wrt (<) (turn_indices g) \<and>
             list_all (\<lambda>i. i < length (track_points g)) (turn_indices g) \<and>
             choose_heading R g = Inr h \<and>
             (turn_indices h = turn_indices g \<or>
              turn_indices h = turn_indices g @ [length (track_points h)])"
proof -
  obtain g where g: "run_steps R n (TrackGenerator_init R sd sl np) = Inr g"
    using run_steps_total [OF assms] by blast
  have "turn_indices_ok g"
    using g
  proof (rule run_steps_invariant [where P = turn_indices_ok, rotated])
    show "turn_indices_ok (TrackGenerator_init R sd sl np)" by (rule init_turn_indices_ok)
  qed (rule generate_next_point_turn_indices_ok)
  moreover obtain h where h: "choose_heading R g = Inr h"
    using choose_heading_total [OF assms] by blast
  moreover from choose_heading_turn_indices [OF h] choose_heading_points(1) [OF h]
  have "turn_indices h = turn_indices g \<or>
        turn_indices h = turn_indices g @ [length (track_points h)]"
    by simp
  ultimately show ?thesis using g by (auto simp add: turn_indices_ok_def)
qed

theorem turn_indices_increasing_valid_witness:
  "\<exists>g h. run_steps tape_rng 25 (TrackGenerator_init tape_rng [7, 3, 900] 10 25) = Inr g \<and>
       sorted_wrt (<) (turn_indices g) \<and>
       list_all (\<lambda>i. i < length (track_points g)) (turn_indices g) \<and>
       choose_heading tape_rng g = Inr h \<and>
       (turn_indices h = turn_indices g \<or>
        turn_indices h = turn_indices g @ [length (track_points h)])"
  using turn_indices_increasing_valid [OF tape_rng_contract, of 25 "[7, 3, 900]" 10 25]
  by simp

lemma run_steps_previous_angles:
  "run_steps R n g = Inr g' \<Longrightarrow>
   \<exists>ys. previous_angles g' = previous_angles g @ ys \<and> length ys \<le> n"
proof (induction n arbitrary: g)
  case 0
  then show ?case by simp
next
  case (Suc n)
  from Suc.prems obtain g1 where g1: "generate_next_point R g = Inr g1"
    and rest: "run_steps R n g1 = Inr g'"
    by (auto split: sum.splits)
  from generate_next_point_previous_angles [OF g1]
  obtain ys where ys: "previous_angles g1 = previous_angles g @ ys" "length ys \<le> 1" by blast
  from Suc.IH [OF rest]
  obtain zs where zs: "previous_angles g' = previous_angles g1 @ zs" "length zs \<le> n" by blast
  from ys zs have "previous_angles g' = previous_angles g @ (ys @ zs) \<and> length (ys @ zs) \<le> Suc n"
    by simp
  then show ?case by blast
qed

subsection \<open>The safe turn angle\<close>

text \<open>
  C8. For every state and every desired delta, \<open>get_safe_turn_angle\<close> returns what the
  specification's decision tree returns: the delta itself if its candidate heading does
  not backtrack, else 0.3 times the delta if that candidate does not, else -0.2 times
  the delta if that candidate does not, else 0. It is a function of the state and the
  delta with at most three further checks and no loop; it returns no new state.
\<close>

theorem safe_turn_angle_decision_tree:
  "get_safe_turn_angle g d = safeTurnAngle_spec g d"
  by (simp add: get_safe_turn_angle_def safeTurnAngle_spec_def Let_def mult.commute)

subsection \<open>Degenerate point counts\<close>

text \<open>
  C10. A generator constructed with a negative \<open>num_points\<close> is constructed like any
  other, and \<open>generate_full_track\<close> on it returns the origin alone and no flagged index,
  the same result as for \<open>num_points = 0\<close>.
\<close>

theorem negative_num_points_empty_track:
  assumes "np < 0"
  shows "generate_full_track R (TrackGenerator_init R sd sl np) = Inr ([(0, 0)], []) \<and>
         generate_full_track R (TrackGenerator_init R sd sl np) =
           generate_full_track R (TrackGenerator_init R sd sl 0)"
  using assms
  by (simp add: generate_full_track_def TrackGenerator_init_def split: prod.splits)

theorem negative_num_points_empty_track_witness:
  "generate_full_track tape_rng (TrackGenerator_init tape_rng [7, 3, 900] 10 (- 5)) = Inr ([(0, 0)], []) \<and>
   generate_full_track tape_rng (TrackGenerator_init tape_rng [7, 3, 900] 10 (- 5)) =
     generate_full_track tape_rng (TrackGenerator_init tape_rng [7, 3, 900] 10 0)"
  by (rule negative_num_points_empty_track) simp

subsection \<open>Runs on the tape source\<close>

text \<open>A raw draw of 500 makes \<open>uniform(-1, 1)\<close> return 0, so a fresh generator on a tape
  of 500s goes straight ahead until its countdown runs out.\<close>

lemma tape_rng_simps [simp]:
  "Random tape_rng = (\<lambda>s. s)"
  "randint tape_rng = tape_randint"
  "uniform tape_rng = tape_uniform"
  "random tape_rng = tape_random"
  by (simp_all add: tape_rng_def)

lemma replicate_5: "replicate 5 x = [x, x, x, x, x]"
  by (simp add: numeral_eq_Suc)

lemma init_tape:
  "TrackGenerator_init tape_rng t sl np =
     \<lparr>seed = t, rng = snd (tape_next t), step_length = sl, num_points = np,
      current_position = (0, 0), track_points = [(0, 0)],
      current_direction_angle = 0, target_direction_angle = 0,
      previous_angles = [0, 0, 0, 0, 0],
      initial_direction = 0, cumulative_turn = 0,
      steps_until_next_turn = 20 + int (fst (tape_next t)) mod 31, turn_indices = [],
      turning = False, turn_steps_remaining = 0, turn_total_steps = 0,
      turn_angle_increment = 0,
      max_turn_angle = 60, max_cumulative_turn = 120, backtrack_threshold = 120\<rparr>"
  by (cases "tape_next t") (simp add: TrackGenerator_init_def tape_randint_def replicate_5)

lemma run_steps_add:
  "run_steps R (m + n) g =
     (case run_steps R m g of Inl e \<Rightarrow> Inl e | Inr g' \<Rightarrow> run_steps R n g')"
  by (induction m arbitrary: g) (simp_all split: sum.splits)

lemma smoothed_zero:
  "previous_angles g = xs @ [0, 0, 0] \<Longrightarrow> get_smoothed_angle g = 0"
  by (simp add: get_smoothed_angle_def)

lemma straight_step_tape:
  assumes "limits_ok g" "\<not> turning g" "steps_until_next_turn g = 1 + int k"
    and "rng g = 500 # t" "previous_angles g = xs @ [0, 0, 0]"
  shows "\<exists>g'. generate_next_point tape_rng g = Inr g' \<and>
          limits_ok g' \<and> \<not> turning g' \<and> steps_until_next_turn g' = int k \<and> rng g' = t \<and>
          previous_angles g' = (xs @ [0]) @ [0, 0, 0] \<and>
          current_direction_angle g' = 0 \<and> turn_indices g' = turn_indices g \<and>
          length (track_points g') = Suc (length (track_points g))"
  using assms
  by (simp add: generate_next_point_def choose_heading_def tape_uniform_def tape_random_def
      smoothed_zero [where xs = xs] would_cause_backtrack_def limits_ok_def normalize_angle_id
      move_forward_def Let_def split: prod.splits)

lemma straight_run_tape:
  assumes "limits_ok g" "\<not> turning g" "steps_until_next_turn g = int k"
    and "rng g = replicate k 500 @ t" "previous_angles g = xs @ [0, 0, 0]"
    and "current_direction_angle g = 0"
  shows "\<exists>g'. run_steps tape_rng k g = Inr g' \<and>
          limits_ok g' \<and> \<not> turning g' \<and> steps_until_next_turn g' = 0 \<and> rng g' = t \<and>
          current_direction_angle g' = 0 \<and> turn_indices g' = turn_indices g \<and>
          length (track_points g') = length (track_points g) + k"
  using assms
proof (induction k arbitrary: g xs)
  case 0
  then show ?case by simp
next
  case (Suc k)
  from Suc.prems have "steps_until_next_turn g = 1 + int k" "rng g = 500 # (replicate k 500 @ t)"
    by simp_all
  with straight_step_tape [of g k "replicate k 500 @ t" xs] Suc.prems
  obtain g1 where g1: "generate_next_point tape_rng g = Inr g1"
    "limits_ok g1" "\<not> turning g1" "steps_until_next_turn g1 = int k"
    "rng g1 = replicate k 500 @ t" "previous_angles g1 = (xs @ [0]) @ [0, 0, 0]"
    "current_direction_angle g1 = 0" "turn_indices g1 = turn_indices g"
    "length (track_points g1) = Suc (length (track_points g))"
    by blast
  from Suc.IH [OF g1(2-7)] g1 show ?case by auto
qed

lemma straight_run_from_init:
  "\<exists>g'. run_steps tape_rng 20 (TrackGenerator_init tape_rng (0 # replicate 20 500 @ t) sl np) = Inr g' \<and>
          limits_ok g' \<and> \<not> turning g' \<and> steps_until_next_turn g' = 0 \<and> rng g' = t \<and>
          current_direction_angle g' = 0 \<and> turn_indices g' = [] \<and>
          length (track_points g') = 21"
  using straight_run_tape [of "TrackGenerator_init tape_rng (0 # replicate 20 500 @ t) sl np"
      20 t "[0, 0]"]
  by (simp add: init_limits_ok) (simp add: init_tape)

subsection \<open>Determinism\<close>







lemma entropy_rng_simps [simp]:
  "Random (entropy_rng e) None = e"
  "Random (entropy_rng e) (Some t) = t"
  "randint (entropy_rng e) = tape_randint"
  "uniform (entropy_rng e) = tape_uniform"
  "random (entropy_rng e) = tape_random"
  by (simp_all add: entropy_rng_def)






subsection \<open>The countdown\<close>

lemma init_countdown:
  "steps_until_next_turn (TrackGenerator_init R sd sl np) = fst (randint R 20 50 (Random R sd))"
  by (simp add: TrackGenerator_init_def split: prod.splits)

lemma reseed_value:
  assumes "\<not> turning g" "steps_until_next_turn g \<le> 0" "generate_next_point R g = Inr g'"
  shows "steps_until_next_turn g' = fst (randint R 30 70 (rng g))"
proof -
  from assms(3) obtain g1 where g1: "choose_heading R g = Inr g1" and g': "g' = move_forward g1"
    by (auto simp add: generate_next_point_def split: sum.splits)
  have big: "steps_until_next_turn h' = steps_until_next_turn h" if "start_big_turn R h = Inr h'" for h h'
    using that by (auto simp add: start_big_turn_def Let_def split: prod.splits if_splits)
  from g1 assms(1,2) have "steps_until_next_turn g1 = fst (randint R 30 70 (rng g))"
    by (auto simp add: choose_heading_def Let_def split: prod.splits if_splits dest!: big)
  then show ?thesis
    by (simp add: g' move_forward_def Let_def split: prod.splits)
qed

text \<open>
  C5 (as amended). For every random source that keeps its contract, the initial
  countdown lies between 20 and 50 and, whenever the generator is not turning and the
  countdown has run out, the next call of \<open>generate_next_point\<close> returns with the
  countdown reseeded between 30 and 70; in both ranges both ends are included, as
  \<open>randint\<close> includes them.
\<close>

theorem countdown_ranges_inclusive:
  assumes "rng_contract R"
  shows "20 \<le> steps_until_next_turn (TrackGenerator_init R sd sl np) \<and>
         steps_until_next_turn (TrackGenerator_init R sd sl np) \<le> 50 \<and>
         (\<not> turning g \<and> steps_until_next_turn g \<le> 0 \<longrightarrow>
            (\<exists>g'. generate_next_point R g = Inr g' \<and>
                  30 \<le> steps_until_next_turn g' \<and> steps_until_next_turn g' \<le> 70))"
proof -
  have r: "a \<le> fst (randint R a b r) \<and> fst (randint R a b r) \<le> b" if "a \<le> b" for a b r
    using assms that by (simp add: rng_contract_def)
  obtain g' where g': "generate_next_point R g = Inr g'"
    using generate_next_point_total [OF assms] by blast
  show ?thesis
    using r [of 20 50 "Random R sd"] r [of 30 70 "rng g"] g' reseed_value [of g R g']
    by (auto simp add: init_countdown)
qed

theorem countdown_ranges_inclusive_witness:
  "20 \<le> steps_until_next_turn (TrackGenerator_init tape_rng [30] 10 200) \<and>
   steps_until_next_turn (TrackGenerator_init tape_rng [30] 10 200) \<le> 50 \<and>
   \<not> turning (projr (run_steps tape_rng 20
       (TrackGenerator_init tape_rng (0 # replicate 20 500 @ [40]) 10 200))) \<and>
   steps_until_next_turn (projr (run_steps tape_rng 20
       (TrackGenerator_init tape_rng (0 # replicate 20 500 @ [40]) 10 200))) \<le> 0 \<and>
   (\<exists>g'. generate_next_point tape_rng (projr (run_steps tape_rng 20
             (TrackGenerator_init tape_rng (0 # replicate 20 500 @ [40]) 10 200))) = Inr g' \<and>
         30 \<le> steps_until_next_turn g' \<and> steps_until_next_turn g' \<le> 70)"
proof -
  obtain g where g: "run_steps tape_rng 20
      (TrackGenerator_init tape_rng (0 # replicate 20 500 @ [40]) 10 200) = Inr g"
    "\<not> turning g" "steps_until_next_turn g = 0"
    using straight_run_from_init [of "[40]" 10 200] by blast
  from countdown_ranges_inclusive [OF tape_rng_contract, of "[30]" 10 200 g] g
  show ?thesis by simp
qed

text \<open>C5 as stated fails: with a raw first draw of 30 the initial countdown is 50, and a
  fresh generator whose countdown of 20 has run out reseeds it to 70 on a raw draw of
  40.\<close>

theorem countdown_draws_upper_ends:
  "steps_until_next_turn (TrackGenerator_init tape_rng [30] 10 200) = 50 \<and>
   map_sum id steps_until_next_turn
     (run_steps tape_rng 21 (TrackGenerator_init tape_rng (0 # replicate 20 500 @ [40]) 10 200)) =
     Inr 70"
proof
  show "steps_until_next_turn (TrackGenerator_init tape_rng [30] 10 200) = 50"
    by (simp add: init_tape)
next
  obtain g where g: "run_steps tape_rng 20
      (TrackGenerator_init tape_rng (0 # replicate 20 500 @ [40]) 10 200) = Inr g"
    "\<not> turning g" "steps_until_next_turn g = 0" "rng g = [40]"
    using straight_run_from_init [of "[40]" 10 200] by blast
  obtain g' where g': "generate_next_point tape_rng g = Inr g'"
    using generate_next_point_total [OF tape_rng_contract] by blast
  from reseed_value [OF g(2) _ g'] g(3,4) have "steps_until_next_turn g' = 70"
    by (simp add: tape_randint_def)
  moreover have "run_steps tape_rng 21 (TrackGenerator_init tape_rng (0 # replicate 20 500 @ [40]) 10 200)
      = run_steps tape_rng 1 g"
    using run_steps_add [of tape_rng 20 1] g(1) by simp
  ultimately show "map_sum id steps_until_next_turn
     (run_steps tape_rng 21 (TrackGenerator_init tape_rng (0 # replicate 20 500 @ [40]) 10 200)) =
     Inr 70"
    using g' by simp
qed

subsection \<open>No validation of the parameters\<close>

text \<open>
  C6 (as amended). Construction validates nothing: for every step length and every
  \<open>num_points\<close>, negative ones included, the generator is constructed with the values
  stored unchanged, and \<open>generate_full_track\<close> on it returns without error a points list
  of \<open>max(num_points, 0) + 1\<close> entries.
\<close>

theorem construction_without_validation:
  assumes "rng_contract R"
  shows "step_length (TrackGenerator_init R sd sl np) = sl \<and>
         num_points (TrackGenerator_init R sd sl np) = np \<and>
         (\<exists>pts idx. generate_full_track R (TrackGenerator_init R sd sl np) = Inr (pts, idx) \<and>
                    length pts = nat np + 1)"
proof -
  have flds: "step_length (TrackGenerator_init R sd sl np) = sl"
    "num_points (TrackGenerator_init R sd sl np) = np"
    "track_points (TrackGenerator_init R sd sl np) = [(0, 0)]"
    by (simp_all add: TrackGenerator_init_def split: prod.splits)
  obtain g where g: "run_steps R (nat np) (TrackGenerator_init R sd sl np) = Inr g"
    using run_steps_total [OF assms] by blast
  from run_steps_length [OF g] have "length (track_points g) = nat np + 1"
    by (simp add: flds)
  with g show ?thesis by (simp add: generate_full_track_def flds)
qed

theorem construction_without_validation_witness:
  "step_length (TrackGenerator_init tape_rng [0, 500] (- 1) (- 5)) = - 1 \<and>
   num_points (TrackGenerator_init tape_rng [0, 500] (- 1) (- 5)) = - 5 \<and>
   (\<exists>pts idx. generate_full_track tape_rng (TrackGenerator_init tape_rng [0, 500] (- 1) (- 5)) =
        Inr (pts, idx) \<and> length pts = nat (- 5) + 1)"
  using construction_without_validation [OF tape_rng_contract, of "[0, 500]" "- 1" "- 5"]
  by simp

text \<open>C6 as stated fails: a step length of -1 and a count of -5 are accepted and give
  the origin alone; a step length of -1 with a count of 1 gives one step backwards.\<close>

theorem negative_parameters_accepted:
  "generate_full_track tape_rng (TrackGenerator_init tape_rng [0, 500] (- 1) (- 5)) =
     Inr ([(0, 0)], []) \<and>
   generate_full_track tape_rng (TrackGenerator_init tape_rng [0, 500] (- 1) 1) =
     Inr ([(0, 0), (- 1, 0)], [])"
  by (simp add: init_tape generate_full_track_def generate_next_point_def choose_heading_def
      tape_uniform_def tape_random_def get_smoothed_angle_def would_cause_backtrack_def
      normalize_angle_id move_forward_def Let_def)

subsection \<open>The moment a turn index is appended\<close>

text \<open>C3 as stated fails at the moment of the append: on the step after twenty straight
  ones a big turn is started, and when the heading has been chosen (before the point of
  this call is appended) the flagged index 21 equals the length of the points list, one
  past its last index.\<close>

theorem turn_index_past_the_end_mid_call:
  "map_sum id (\<lambda>g. (turn_indices g, length (track_points g)))
     (case run_steps tape_rng 20 (TrackGenerator_init tape_rng (0 # replicate 20 500 @ [0, 900]) 10 200)
      of Inl e \<Rightarrow> Inl e | Inr g \<Rightarrow> choose_heading tape_rng g) = Inr ([21], 21)"
proof -
  obtain g where g: "run_steps tape_rng 20
      (TrackGenerator_init tape_rng (0 # replicate 20 500 @ [0, 900]) 10 200) = Inr g"
    "limits_ok g" "\<not> turning g" "steps_until_next_turn g = 0" "rng g = [0, 900]"
    "current_direction_angle g = 0" "turn_indices g = []" "length (track_points g) = 21"
    using straight_run_from_init [of "[0, 900]" 10 200] by blast
  have "map_sum id (\<lambda>g. (turn_indices g, length (track_points g))) (choose_heading tape_rng g)
      = Inr ([21], 21)"
    using g(2-)
    by (simp add: choose_heading_def start_big_turn_def tape_uniform_def tape_random_def
        tape_randint_def get_safe_turn_angle_def would_cause_backtrack_def limits_ok_def
        normalize_angle_id Let_def)
  with g(1) show ?thesis by simp
qed

subsection \<open>The heading history\<close>

lemma would_cause_backtrack_history:
  "same_but_history g1 g2 \<Longrightarrow> would_cause_backtrack g1 p = would_cause_backtrack g2 p"
  by (simp add: same_but_history_def would_cause_backtrack_def)

lemma get_safe_turn_angle_history:
  assumes "same_but_history g1 g2"
  shows "get_safe_turn_angle g1 d = get_safe_turn_angle g2 d"
proof -
  from assms have "current_direction_angle g1 = current_direction_angle g2"
    by (simp add: same_but_history_def)
  then show ?thesis
    by (simp add: get_safe_turn_angle_def Let_def would_cause_backtrack_history [OF assms])
qed

lemma step_turn_history:
  assumes "same_but_history g1 g2"
  shows "same_but_history (step_turn g1) (step_turn g2)"
  using assms would_cause_backtrack_history [OF assms]
  by (simp add: same_but_history_def step_turn_def Let_def)

lemma move_forward_history:
  "same_but_history g1 g2 \<Longrightarrow> same_but_history (move_forward g1) (move_forward g2)"
  by (simp add: same_but_history_def move_forward_def Let_def split: prod.splits)

lemma start_big_turn_history:
  assumes "same_but_history g1 g2"
  shows "rel_sum (=) same_but_history (start_big_turn R g1) (start_big_turn R g2)"
proof -
  from assms have flds: "rng g1 = rng g2" "current_direction_angle g1 = current_direction_angle g2"
    "turn_indices g1 = turn_indices g2" "track_points g1 = track_points g2"
    by (simp_all add: same_but_history_def)
  have upd: "same_but_history
      (g1\<lparr>rng := r, target_direction_angle := t, turn_total_steps := n,
          turn_steps_remaining := n, turn_angle_increment := i, turning := True,
          turn_indices := ti\<rparr>)
      (g2\<lparr>rng := r, target_direction_angle := t, turn_total_steps := n,
          turn_steps_remaining := n, turn_angle_increment := i, turning := True,
          turn_indices := ti\<rparr>)" for r t n i ti
    using assms by (simp add: same_but_history_def)
  show ?thesis
    by (simp add: start_big_turn_def Let_def flds get_safe_turn_angle_history [OF assms] upd
        del: TrackGenerator.update_convs split: prod.splits)
qed

lemma choose_heading_history:
  assumes "same_but_history g1 g2" "get_smoothed_angle g1 = get_smoothed_angle g2"
  shows "rel_sum (=) same_but_history (choose_heading R g1) (choose_heading R g2)"
proof (cases "turning g1")
  case True
  with assms have "turning g2" by (simp add: same_but_history_def)
  with True step_turn_history [OF assms(1)] show ?thesis by (simp add: choose_heading_def)
next
  case nt: False
  with assms have nt2: "\<not> turning g2" by (simp add: same_but_history_def)
  from assms have flds: "rng g1 = rng g2" "current_direction_angle g1 = current_direction_angle g2"
    "turn_indices g1 = turn_indices g2" "track_points g1 = track_points g2"
    "steps_until_next_turn g1 = steps_until_next_turn g2"
    by (simp_all add: same_but_history_def)
  show ?thesis
  proof (cases "0 < steps_until_next_turn g1")
    case True
    have sm: "get_smoothed_angle (g1\<lparr>steps_until_next_turn := n, rng := r\<rparr>) =
        get_smoothed_angle (g2\<lparr>steps_until_next_turn := n, rng := r\<rparr>)" for n r
      using assms(2) by (simp add: get_smoothed_angle_def)
    have wb: "would_cause_backtrack (g1\<lparr>steps_until_next_turn := n, rng := r\<rparr>) p =
        would_cause_backtrack (g2\<lparr>steps_until_next_turn := n, rng := r\<rparr>) p" for n r p
      using assms(1) by (intro would_cause_backtrack_history) (simp add: same_but_history_def)
    from True nt nt2 assms(1) show ?thesis
      by (simp add: choose_heading_def Let_def flds sm wb split: prod.splits)
         (simp add: same_but_history_def)
  next
    case False
    have big: "rel_sum (=) same_but_history
        (start_big_turn R (g1\<lparr>steps_until_next_turn := n, rng := r\<rparr>))
        (start_big_turn R (g2\<lparr>steps_until_next_turn := n, rng := r\<rparr>))" for n r
      using assms(1) by (intro start_big_turn_history) (simp add: same_but_history_def)
    have small: "get_safe_turn_angle (g1\<lparr>steps_until_next_turn := n, rng := r\<rparr>) d =
        get_safe_turn_angle (g2\<lparr>steps_until_next_turn := n, rng := r\<rparr>) d" for n r d
      using assms(1) by (intro get_safe_turn_angle_history) (simp add: same_but_history_def)
    from False nt nt2 show ?thesis
      using assms(1) big
      by (simp add: choose_heading_def Let_def small flds split: prod.splits)
         (simp add: same_but_history_def)
  qed
qed

lemma generate_next_point_history:
  assumes "same_but_history g1 g2" "get_smoothed_angle g1 = get_smoothed_angle g2"
  shows "rel_sum (=) same_but_history (generate_next_point R g1) (generate_next_point R g2)"
  using choose_heading_history [OF assms, of R]
  by (auto simp add: generate_next_point_def rel_sum.simps move_forward_history)

lemma smoothed_last_three:
  "get_smoothed_angle (g\<lparr>previous_angles := drop (length (previous_angles g) - 3) (previous_angles g)\<rparr>)
     = get_smoothed_angle g"
  by (simp add: get_smoothed_angle_def)

lemma history_only_smooths:
  "rel_sum (=) same_but_history
     (generate_next_point R
        (g\<lparr>previous_angles := drop (length (previous_angles g) - 3) (previous_angles g)\<rparr>))
     (generate_next_point R g)"
  by (rule generate_next_point_history) (simp_all add: same_but_history_def smoothed_last_three)

text \<open>
  C7 (as amended). The heading history is seeded with five zeros and is append-only:
  after \<open>n\<close> calls it is the five zeros followed by at most \<open>n\<close> recorded headings, and
  nothing is ever removed from it. It is used only for smoothing: cutting it down to
  its last three entries before a call changes nothing of that call's result but the
  history itself.
\<close>

theorem previous_angles_append_only:
  assumes "rng_contract R"
  shows "\<exists>g ys. run_steps R n (TrackGenerator_init R sd sl np) = Inr g \<and>
             previous_angles g = replicate 5 0 @ ys \<and> length ys \<le> n \<and>
             rel_sum (=) same_but_history
               (generate_next_point R
                  (g\<lparr>previous_angles :=
                       drop (length (previous_angles g) - 3) (previous_angles g)\<rparr>))
               (generate_next_point R g)"
proof -
  obtain g where g: "run_steps R n (TrackGenerator_init R sd sl np) = Inr g"
    using run_steps_total [OF assms] by blast
  from run_steps_previous_angles [OF g]
  obtain ys where "previous_angles g = previous_angles (TrackGenerator_init R sd sl np) @ ys"
    "length ys \<le> n" by blast
  moreover have "previous_angles (TrackGenerator_init R sd sl np) = replicate 5 0"
    by (simp add: TrackGenerator_init_def split: prod.splits)
  ultimately show ?thesis using g history_only_smooths [of R g] by auto
qed

theorem previous_angles_append_only_witness:
  "\<exists>g ys. run_steps tape_rng 25 (TrackGenerator_init tape_rng [7, 3, 900] 10 25) = Inr g \<and>
       previous_angles g = replicate 5 0 @ ys \<and> length ys \<le> 25 \<and>
       rel_sum (=) same_but_history
         (generate_next_point tape_rng
            (g\<lparr>previous_angles :=
                 drop (length (previous_angles g) - 3) (previous_angles g)\<rparr>))
         (generate_next_point tape_rng g)"
  using previous_angles_append_only [OF tape_rng_contract, of 25 "[7, 3, 900]" 10 25]
  by simp

text \<open>C7 as stated fails: after one straight step of a fresh generator the history has
  six entries.\<close>

theorem history_grows_past_five:
  "map_sum id (\<lambda>g. length (previous_angles g))
     (generate_next_point tape_rng (TrackGenerator_init tape_rng [0, 500] 10 5)) = Inr 6"
  by (simp add: init_tape generate_next_point_def choose_heading_def tape_uniform_def
      tape_random_def get_smoothed_angle_def would_cause_backtrack_def normalize_angle_id
      move_forward_def Let_def)

end
